theory Spec2Isabelle
  imports Main "HOL-Library.Word"
begin

unbundle bit_operations_syntax

section \<open>Buffers and JavaScript numbers\<close>

text \<open>
  A Node \<open>Buffer\<close> is a sequence of bytes. The numbers \<open>HmKitCrypto.js\<close> computes with
  are lengths, indices and bytes read from a buffer: non-negative integers, or the value
  that JavaScript produces for a read outside the buffer (\<open>undefined\<close>) and for arithmetic
  on it (\<open>NaN\<close>). Both are \<open>None\<close> here.
\<close>

type_synonym byte = "8 word"
type_synonym buffer = "byte list"
type_synonym jsnum = "nat option"

text \<open>\<open>buf[i]\<close>: the byte at index \<open>i\<close>, \<open>undefined\<close> outside the buffer or at \<open>NaN\<close>.\<close>

definition at :: "buffer \<Rightarrow> jsnum \<Rightarrow> byte option" where
  "at buf i = (case i of None \<Rightarrow> None
               | Some k \<Rightarrow> if k < length buf then Some (buf ! k) else None)"

text \<open>A byte read from a buffer, used as a number.\<close>

definition num :: "byte option \<Rightarrow> jsnum" where
  "num v = (case v of None \<Rightarrow> None | Some b \<Rightarrow> Some (unat b))"

text \<open>\<open>a + b\<close> on numbers: \<open>NaN\<close> as soon as one side is \<open>undefined\<close> or \<open>NaN\<close>.\<close>

definition js_add :: "jsnum \<Rightarrow> jsnum \<Rightarrow> jsnum" where
  "js_add a b = (case a of None \<Rightarrow> None
                 | Some x \<Rightarrow> (case b of None \<Rightarrow> None | Some y \<Rightarrow> Some (x + y)))"

text \<open>\<open>a & b\<close> and \<open>a ^ b\<close> on bytes read from buffers: \<open>undefined\<close> counts as 0.\<close>

definition js_and :: "byte option \<Rightarrow> byte \<Rightarrow> byte" where
  "js_and a m = (case a of None \<Rightarrow> 0 | Some b \<Rightarrow> b AND m)"

definition js_xor :: "byte option \<Rightarrow> byte option \<Rightarrow> byte" where
  "js_xor a b = (case a of None \<Rightarrow> 0 | Some x \<Rightarrow> x) XOR (case b of None \<Rightarrow> 0 | Some y \<Rightarrow> y)"

text \<open>
  \<open>buf.slice(start, end)\<close> for the non-negative offsets the code passes: each offset is
  clamped to the length of the buffer, \<open>NaN\<close> counts as 0, and the result is empty when
  the end does not lie behind the start. \<open>slice\<close> never raises.
\<close>

definition adjustOffset :: "jsnum \<Rightarrow> nat \<Rightarrow> nat" where
  "adjustOffset offset len = (case offset of None \<Rightarrow> 0
                              | Some k \<Rightarrow> if k < len then k else len)"

definition slice :: "buffer \<Rightarrow> jsnum \<Rightarrow> jsnum \<Rightarrow> buffer" where
  "slice buf start fin =
     (let s = adjustOffset start (length buf);
          e = adjustOffset fin (length buf)
      in if s < e then take (e - s) (drop s buf) else [])"

section \<open>Message padding\<close>

text \<open>\<open>fill64Blocks\<close>: the message itself when its length is a multiple of 64, else the
  message followed by \<open>64 - length mod 64\<close> zero bytes.\<close>

definition fill64Blocks :: "buffer \<Rightarrow> buffer" where
  "fill64Blocks message =
     (let sz = 64 in
      if length message mod sz = 0 then message
      else (let sizeToFill = sz - length message mod sz
            in message @ replicate sizeToFill 0))"

section \<open>Byte normalisation\<close>

text \<open>\<open>removeLeftZeros\<close>: the loop keeps the counter \<open>i\<close> and the current suffix
  \<open>newBytes\<close>, and goes on while \<open>i < bytes.length && newBytes[0] === 0\<close>.\<close>

function removeLeftZeros_loop :: "buffer \<Rightarrow> nat \<Rightarrow> buffer \<Rightarrow> buffer" where
  "removeLeftZeros_loop bytes i newBytes =
     (if i < length bytes \<and> at newBytes (Some 0) = Some 0
      then removeLeftZeros_loop bytes (i + 1) (slice bytes (Some (i + 1)) (Some (length bytes)))
      else newBytes)"
  by pat_completeness auto
termination
  by (relation "measure (\<lambda>(bytes, i, newBytes). length bytes - i)") auto

definition removeLeftZeros :: "buffer \<Rightarrow> buffer" where
  "removeLeftZeros bytes = removeLeftZeros_loop bytes 0 bytes"

definition prependZeroIfNeeded :: "buffer \<Rightarrow> buffer" where
  "prependZeroIfNeeded bytes =
     (let stripped = removeLeftZeros bytes in
      if js_and (at stripped (Some 0)) 0x80 = 0x80 then [0] @ stripped else stripped)"

definition fixSizeTo32 :: "buffer \<Rightarrow> buffer" where
  "fixSizeTo32 binary =
     (let sz = 32 in
      if length binary = sz then binary
      else if length binary > sz
      then slice binary (Some (length binary - sz)) (Some (length binary))
      else (let sizeToFill = sz - length binary
            in replicate sizeToFill 0 @ binary))"

section \<open>DER signature codec\<close>

text \<open>\<open>fillSignature\<close>: the 64-byte \<open>r || s\<close> signature to DER. \<open>Buffer.from\<close> stores
  each number of the array modulo 256.\<close>

definition fillSignature :: "buffer \<Rightarrow> buffer" where
  "fillSignature shortSignature =
     (let vr = prependZeroIfNeeded (slice shortSignature (Some 0) (Some 32));
          vs = prependZeroIfNeeded (slice shortSignature (Some 32) (Some 64));
          b2 = length vr;
          b3 = length vs;
          b1 = 4 + b2 + b3
      in [0x30, of_nat b1, 0x02, of_nat b2] @ vr @ [0x02, of_nat b3] @ vs)"

text \<open>\<open>stripSignature\<close>: DER to the 64-byte signature, reading the two length bytes at
  the offsets where \<open>fillSignature\<close> puts them. Nothing is checked: a missing length byte
  is \<open>undefined\<close>, the index computed from it is \<open>NaN\<close>, and the slices are clamped.\<close>

definition stripSignature :: "buffer \<Rightarrow> buffer" where
  "stripSignature signature =
     (let currentIndex = Some 3;
          secVrSize = num (at signature currentIndex);
          secVr = slice signature (Some 4) (js_add (Some 4) secVrSize);
          currentIndex = js_add currentIndex (js_add secVrSize (Some 1));
          currentIndex = js_add currentIndex (Some 1);
          secVsSize = num (at signature currentIndex);
          currentIndex = js_add currentIndex (Some 1);
          secVs = slice signature currentIndex (js_add currentIndex secVsSize)
      in fixSizeTo32 secVr @ fixSizeTo32 secVs)"

section \<open>Session key and keystream cipher\<close>

text \<open>
  The elliptic-curve, HMAC and AES computations are done by Node's \<open>crypto\<close> module,
  which is not part of the repository. The model takes them as parameters:
  \<^item> \<open>ecdhSecret priv pub\<close>: \<open>createECDH('prime256v1').setPrivateKey(priv).computeSecret(pub)\<close>,
    \<open>None\<close> when the library throws (a key that the curve does not accept);
  \<^item> \<open>hmacSha256 key msg\<close>: \<open>createHmac('sha256', key).update(msg).digest()\<close>;
  \<^item> \<open>aes128Block key block\<close>: the AES-128 encryption of one 16-byte block.
\<close>

record crypto =
  ecdhSecret :: "buffer \<Rightarrow> buffer \<Rightarrow> buffer option"
  hmacSha256 :: "buffer \<Rightarrow> buffer \<Rightarrow> buffer"
  aes128Block :: "buffer \<Rightarrow> buffer \<Rightarrow> buffer"

text \<open>The exceptions of the library that the code lets through.\<close>

datatype error = ComputeSecretFailed | InvalidKeyLength

definition hmac :: "crypto \<Rightarrow> buffer \<Rightarrow> buffer \<Rightarrow> buffer" where
  "hmac P key message = hmacSha256 P key (fill64Blocks message)"

definition computeSecret :: "crypto \<Rightarrow> buffer \<Rightarrow> buffer \<Rightarrow> error + buffer" where
  "computeSecret P privateKey publicKey =
     (let fullPublicKey = [4] @ publicKey
      in case ecdhSecret P privateKey fullPublicKey of
           None \<Rightarrow> Inl ComputeSecretFailed
         | Some secret \<Rightarrow> Inr secret)"

definition sessionKey :: "crypto \<Rightarrow> buffer \<Rightarrow> buffer \<Rightarrow> buffer \<Rightarrow> error + buffer" where
  "sessionKey P privateKey publicKey nonce =
     (case computeSecret P privateKey publicKey of
        Inl e \<Rightarrow> Inl e
      | Inr secret \<Rightarrow> Inr (hmac P secret nonce))"

text \<open>
  \<open>createCipheriv('aes-128-ecb', key, '').update(data)\<close>: the constructor throws unless
  the key has 16 bytes; \<open>update\<close> returns the encryption of every complete 16-byte block
  of the data and keeps an incomplete last block back (it would only leave the cipher
  with \<open>final\<close>, which the code never calls).
\<close>

fun ecbUpdate :: "(buffer \<Rightarrow> buffer) \<Rightarrow> buffer \<Rightarrow> buffer" where
  "ecbUpdate enc data =
     (if length data < 16 then []
      else enc (take 16 data) @ ecbUpdate enc (drop 16 data))"

definition cipherUpdate :: "crypto \<Rightarrow> buffer \<Rightarrow> buffer \<Rightarrow> error + buffer" where
  "cipherUpdate P key data =
     (if length key \<noteq> 16 then Inl InvalidKeyLength
      else Inr (ecbUpdate (aes128Block P key) data))"

text \<open>\<open>xor\<close>: one byte of output for every index of \<open>a\<close>.\<close>

definition xor_buf :: "buffer \<Rightarrow> buffer \<Rightarrow> buffer" where
  "xor_buf a b = map (\<lambda>i. js_xor (at a (Some i)) (at b (Some i))) [0..<length a]"

text \<open>
  The tiling loop of \<open>encryptDecrypt\<close>:
  \<open>while (cipherWithSizeOfMessage.length < message.length)\<close> appends the cipher block
  once more. Nothing in the code bounds the number of rounds, so the loop is a partial
  function: \<open>None\<close> is a call that does not return.
\<close>

partial_function (option) encryptDecrypt_loop :: "buffer \<Rightarrow> buffer \<Rightarrow> nat \<Rightarrow> buffer option" where
  "encryptDecrypt_loop cipherWithSizeOfMessage cipher messageLength =
     (if length cipherWithSizeOfMessage < messageLength
      then encryptDecrypt_loop (cipherWithSizeOfMessage @ cipher) cipher messageLength
      else Some cipherWithSizeOfMessage)"

declare encryptDecrypt_loop.simps [code]

definition encryptDecrypt ::
  "crypto \<Rightarrow> buffer \<Rightarrow> buffer \<Rightarrow> buffer \<Rightarrow> buffer \<Rightarrow> (error + buffer) option" where
  "encryptDecrypt P message privateKey publicKey nonce =
     (case sessionKey P privateKey publicKey nonce of
        Inl e \<Rightarrow> Some (Inl e)
      | Inr sessionKeyValue \<Rightarrow>
          (let encryptionKey = slice sessionKeyValue (Some 0) (Some 16);
               iv = slice nonce (Some 0) (Some 7) @ nonce
           in case cipherUpdate P encryptionKey iv of
                Inl e \<Rightarrow> Some (Inl e)
              | Inr cipher \<Rightarrow>
                  (case encryptDecrypt_loop cipher cipher (length message) of
                     None \<Rightarrow> None
                   | Some tiled \<Rightarrow>
                       Some (Inr (xor_buf (slice tiled (Some 0) (Some (length message)))
                                          message)))))"

text \<open>
  What the code relies on from the library: an HMAC-SHA256 digest has 32 bytes, and
  AES-128 maps a 16-byte block to a 16-byte block under a 16-byte key.
\<close>

definition crypto_ok :: "crypto \<Rightarrow> bool" where
  "crypto_ok P \<longleftrightarrow>
     (\<forall>key msg. length (hmacSha256 P key msg) = 32)
     \<and> (\<forall>key block. length key = 16 \<and> length block = 16
            \<longrightarrow> length (aes128Block P key block) = 16)"

section \<open>The session key as the specification words it\<close>

text \<open>\<open>pad64\<close>: unchanged when the length is a multiple of 64, else zero bytes are
  appended until the length is the next multiple of 64.\<close>

definition pad64_spec :: "buffer \<Rightarrow> buffer" where
  "pad64_spec message =
     (if length message mod 64 = 0 then message
      else message @ replicate (64 * (length message div 64 + 1) - length message) 0)"

text \<open>\<open>deriveSessionKey\<close>: HMAC-SHA256, keyed with the ECDH shared secret of the private
  key and the public key tagged with \<open>0x04\<close>, of the padded nonce.\<close>

definition deriveSessionKey_spec :: "crypto \<Rightarrow> buffer \<Rightarrow> buffer \<Rightarrow> buffer \<Rightarrow> error + buffer" where
  "deriveSessionKey_spec P privateKey publicKey nonce =
     (case ecdhSecret P privateKey (0x04 # publicKey) of
        None \<Rightarrow> Inl ComputeSecretFailed
      | Some sharedSecret \<Rightarrow> Inr (hmacSha256 P sharedSecret (pad64_spec nonce)))"

section \<open>A stand-in for the library\<close>

text \<open>
  To run the model on concrete inputs the three primitives need values. These have the
  shapes of the real ones (a 32-byte secret from a 32-byte private key and a 65-byte
  tagged public key, a 32-byte digest, a 16-byte block) and none of their cryptography.
\<close>

definition toy_ecdh :: "buffer \<Rightarrow> buffer \<Rightarrow> buffer option" where
  "toy_ecdh privateKey fullPublicKey =
     (if length privateKey = 32 \<and> length fullPublicKey = 65
      then Some (map (\<lambda>(a, b). a XOR b) (zip privateKey (take 32 (drop 1 fullPublicKey))))
      else None)"

definition toy_hmac :: "buffer \<Rightarrow> buffer \<Rightarrow> buffer" where
  "toy_hmac key msg = replicate 32 (foldr (+) (key @ msg) 0)"

definition toy_aes :: "buffer \<Rightarrow> buffer \<Rightarrow> buffer" where
  "toy_aes key block = map (\<lambda>(k, b). k XOR b + 1) (zip key block)"

definition toy_crypto :: crypto where
  "toy_crypto = \<lparr>ecdhSecret = toy_ecdh, hmacSha256 = toy_hmac, aes128Block = toy_aes\<rparr>"

section \<open>The library on one input\<close>






section \<open>Properties of the buffer operations\<close>

declare removeLeftZeros_loop.simps [simp del]

lemma slice_Some: "slice buf (Some s) (Some e) = drop s (take e buf)"
  by (auto simp: slice_def adjustOffset_def Let_def drop_take min_def)

lemma slice_NaN_end: "slice buf start None = []"
  by (simp add: slice_def adjustOffset_def)

lemma js_add_Some: "js_add (Some a) (Some b) = Some (a + b)"
  by (simp add: js_add_def)

lemma unat_of_nat_byte: "n < 256 \<Longrightarrow> unat (of_nat n :: byte) = n"
  by (simp add: unat_of_nat)

subsection \<open>Padding to 64-byte blocks\<close>

lemma next_multiple: "r < 64 \<Longrightarrow> n = 64 * q + r \<Longrightarrow> n + (64 - r) = 64 * (q + 1)"
  for n q r :: nat
  by simp

lemma pad_to_next_multiple: "n + (64 - n mod 64) = 64 * (n div 64 + 1)"
  for n :: nat
  by (rule next_multiple) simp_all

lemma fill64Blocks_aligned: "length m mod 64 = 0 \<Longrightarrow> fill64Blocks m = m"
  by (simp add: fill64Blocks_def)

lemma fill64Blocks_unaligned:
  "length m mod 64 \<noteq> 0 \<Longrightarrow> fill64Blocks m = m @ replicate (64 - length m mod 64) 0"
  by (simp add: fill64Blocks_def)

lemma length_fill64Blocks:
  "length (fill64Blocks m) =
     (if length m mod 64 = 0 then length m else 64 * (length m div 64 + 1))"
  by (simp add: fill64Blocks_def pad_to_next_multiple)

lemma fill64Blocks_multiple: "length (fill64Blocks m) mod 64 = 0"
  by (simp add: length_fill64Blocks)

subsection \<open>Fixed width\<close>

lemma fixSizeTo32_short: "length xs < 32 \<Longrightarrow> fixSizeTo32 xs = replicate (32 - length xs) 0 @ xs"
  by (simp add: fixSizeTo32_def)

lemma fixSizeTo32_exact: "length xs = 32 \<Longrightarrow> fixSizeTo32 xs = xs"
  by (simp add: fixSizeTo32_def)

lemma fixSizeTo32_long: "32 < length xs \<Longrightarrow> fixSizeTo32 xs = drop (length xs - 32) xs"
  by (simp add: fixSizeTo32_def slice_Some)

lemma length_fixSizeTo32: "length (fixSizeTo32 xs) = 32"
  by (auto simp: fixSizeTo32_def slice_Some)

lemma fixSizeTo32_zeros_append: "k + length ys = 32 \<Longrightarrow> fixSizeTo32 ys = replicate k 0 @ ys"
  by (cases "k = 0") (auto simp: fixSizeTo32_exact fixSizeTo32_short)

lemma fixSizeTo32_guarded:
  assumes "k + length ys = 32"
  shows "fixSizeTo32 (0 # ys) = replicate k 0 @ ys"
proof (cases k)
  case 0
  then show ?thesis using assms by (simp add: fixSizeTo32_long)
next
  case (Suc j)
  then have "j + length (0 # ys) = 32" using assms by simp
  then have "fixSizeTo32 (0 # ys) = replicate j 0 @ 0 # ys"
    by (rule fixSizeTo32_zeros_append)
  then show ?thesis using Suc by (simp add: replicate_app_Cons_same)
qed

subsection \<open>Leading zeros and the sign guard\<close>

text \<open>The loop of \<open>removeLeftZeros\<close> keeps \<open>newBytes = bytes.slice(i)\<close> and stops at the
  first nonzero byte or at the end of the buffer.\<close>

lemma removeLeftZeros_loop_eq:
  "i \<le> length bytes \<Longrightarrow>
   removeLeftZeros_loop bytes i (drop i bytes) = dropWhile (\<lambda>b. b = 0) (drop i bytes)"
proof (induction bytes i "drop i bytes" rule: removeLeftZeros_loop.induct)
  case (1 bytes i)
  show ?case
  proof (cases "i < length bytes \<and> at (drop i bytes) (Some 0) = Some 0")
    case True
    then have hd0: "bytes ! i = 0" and lt: "i < length bytes"
      by (auto simp: at_def)
    have d: "drop i bytes = 0 # drop (Suc i) bytes"
      using lt hd0 by (metis Cons_nth_drop_Suc)
    have s: "slice bytes (Some (i + 1)) (Some (length bytes)) = drop (Suc i) bytes"
      by (simp add: slice_Some)
    have "removeLeftZeros_loop bytes (i + 1) (drop (i + 1) bytes)
          = dropWhile (\<lambda>b. b = 0) (drop (i + 1) bytes)"
      using "1.hyps"[OF True] s lt by simp
    then show ?thesis
      using True s d by (subst removeLeftZeros_loop.simps) simp
  next
    case False
    then have "drop i bytes = [] \<or> hd (drop i bytes) \<noteq> 0"
      using "1.prems" by (cases "drop i bytes") (auto simp: at_def)
    then have "dropWhile (\<lambda>b. b = 0) (drop i bytes) = drop i bytes"
      by (cases "drop i bytes") auto
    then show ?thesis
      using False by (subst removeLeftZeros_loop.simps) auto
  qed
qed

lemma removeLeftZeros_eq: "removeLeftZeros bytes = dropWhile (\<lambda>b. b = 0) bytes"
  using removeLeftZeros_loop_eq[of 0 bytes] by (simp add: removeLeftZeros_def)

lemma zeros_split:
  "replicate (length (takeWhile (\<lambda>b. b = 0) xs)) (0::byte) @ dropWhile (\<lambda>b. b = 0) xs = xs"
  by (induction xs) auto

lemma prependZeroIfNeeded_cases:
  "prependZeroIfNeeded xs = dropWhile (\<lambda>b. b = 0) xs
   \<or> prependZeroIfNeeded xs = 0 # dropWhile (\<lambda>b. b = 0) xs"
  by (simp add: prependZeroIfNeeded_def removeLeftZeros_eq Let_def)

lemma length_prependZeroIfNeeded: "length (prependZeroIfNeeded xs) \<le> length xs + 1"
proof -
  have "length (dropWhile (\<lambda>b. b = 0) xs) \<le> length xs"
    by (rule length_dropWhile_le)
  then show ?thesis
    using prependZeroIfNeeded_cases[of xs] by auto
qed

lemma fixSizeTo32_prependZeroIfNeeded:
  assumes "length r = 32"
  shows "fixSizeTo32 (prependZeroIfNeeded r) = r"
proof -
  define k where "k = length (takeWhile (\<lambda>b. b = 0) r)"
  define r0 where "r0 = dropWhile (\<lambda>b. b = 0) r"
  have r: "r = replicate k 0 @ r0"
    unfolding k_def r0_def by (rule zeros_split[symmetric])
  then have "length r = k + length r0"
    by (metis length_append length_replicate)
  then have len: "k + length r0 = 32" using assms by simp
  have "fixSizeTo32 (prependZeroIfNeeded r) = replicate k 0 @ r0"
  proof (rule disjE[OF prependZeroIfNeeded_cases[of r]])
    assume "prependZeroIfNeeded r = dropWhile (\<lambda>b. b = 0) r"
    then have "prependZeroIfNeeded r = r0" by (simp only: r0_def)
    then show ?thesis by (simp only: fixSizeTo32_zeros_append[OF len])
  next
    assume "prependZeroIfNeeded r = 0 # dropWhile (\<lambda>b. b = 0) r"
    then have "prependZeroIfNeeded r = 0 # r0" by (simp only: r0_def)
    then show ?thesis by (simp only: fixSizeTo32_guarded[OF len])
  qed
  then show ?thesis using r[symmetric] by (rule trans)
qed

subsection \<open>The DER frame\<close>

lemma stripSignature_frame:
  assumes "length p = 4" "p ! 3 = of_nat (length vr)" "length vr < 256" "length vs < 256"
  shows "stripSignature (p @ vr @ t # of_nat (length vs) # vs) = fixSizeTo32 vr @ fixSizeTo32 vs"
proof -
  let ?sig = "p @ vr @ t # of_nat (length vs) # vs"
  have a3: "num (at ?sig (Some 3)) = Some (length vr)"
    using assms(1,2,3) by (simp add: at_def nth_append num_def unat_of_nat_byte)
  have s1: "slice ?sig (Some 4) (Some (4 + length vr)) = vr"
    using assms(1) by (simp add: slice_Some)
  have a5: "num (at ?sig (Some (3 + (length vr + 1) + 1))) = Some (length vs)"
    using assms(1,4) by (simp add: at_def nth_append num_def unat_of_nat_byte)
  have s2: "slice ?sig (Some (3 + (length vr + 1) + 1 + 1))
                       (Some (3 + (length vr + 1) + 1 + 1 + length vs)) = vs"
    using assms(1) by (simp add: slice_Some)
  show ?thesis
    unfolding stripSignature_def Let_def
    by (simp only: a3 js_add_Some s1 a5 s2)
qed

lemma stripSignature_der:
  assumes "length vr < 256" "length vs < 256"
  shows "stripSignature ([0x30, b1, 0x02, of_nat (length vr)] @ vr @ [0x02, of_nat (length vs)] @ vs)
         = fixSizeTo32 vr @ fixSizeTo32 vs"
  using stripSignature_frame[of "[0x30, b1, 0x02, of_nat (length vr)]" vr vs 2] assms by simp

lemma signature_halves:
  assumes "length rs = 64"
  shows "length (slice rs (Some 0) (Some 32)) = 32"
    and "length (slice rs (Some 32) (Some 64)) = 32"
    and "slice rs (Some 0) (Some 32) @ slice rs (Some 32) (Some 64) = rs"
  using assms by (simp_all add: slice_Some)

lemma length_component:
  "length (prependZeroIfNeeded (slice shortSignature (Some a) (Some (a + 32)))) \<le> 33"
proof -
  have "length (slice shortSignature (Some a) (Some (a + 32))) \<le> 32"
    by (simp add: slice_Some)
  then show ?thesis
    using length_prependZeroIfNeeded[of "slice shortSignature (Some a) (Some (a + 32))"] by simp
qed

text \<open>
  An \<open>r\<close> of \<open>00 89 ab ...\<close>: the leading zero byte is removed and put back as the sign
  guard of \<open>0x89\<close>, so the DER INTEGER of \<open>r\<close> has 32 bytes (length byte \<open>0x20\<close>).
\<close>

lemma fillSignature_sign_guard_example:
  "take 6 (fillSignature ([0x00, 0x89] @ replicate 30 0xab @ [0x80] @ replicate 31 0x01))
   = [0x30, 0x45, 0x02, 0x20, 0x00, 0x89]"
  by (simp add: fillSignature_def prependZeroIfNeeded_def removeLeftZeros_eq slice_Some
      at_def js_and_def Let_def)

section \<open>The signature codec\<close>

text \<open>
  C1. Decoding the DER encoding of a 64-byte signature gives the signature back:
  \<open>stripSignature (fillSignature rs) = rs\<close> for every \<open>rs\<close> of 64 bytes, whatever the
  number of leading zero bytes of \<open>r\<close> and \<open>s\<close> and whether or not their first nonzero
  byte has the bit \<open>0x80\<close> set.
\<close>

theorem stripSignature_fillSignature:
  assumes "length rs = 64"
  shows "stripSignature (fillSignature rs) = rs"
proof -
  let ?r = "slice rs (Some 0) (Some 32)" and ?s = "slice rs (Some 32) (Some 64)"
  have lr: "length ?r = 32" and ls: "length ?s = 32" and split: "?r @ ?s = rs"
    using signature_halves[OF assms] by blast+
  have "length (prependZeroIfNeeded ?r) < 256" "length (prependZeroIfNeeded ?s) < 256"
    using length_component[of rs 0] length_component[of rs 32] by simp_all
  then have "stripSignature (fillSignature rs)
             = fixSizeTo32 (prependZeroIfNeeded ?r) @ fixSizeTo32 (prependZeroIfNeeded ?s)"
    unfolding fillSignature_def Let_def by (rule stripSignature_der)
  also have "\<dots> = ?r @ ?s"
    using lr ls by (simp only: fixSizeTo32_prependZeroIfNeeded)
  finally have "stripSignature (fillSignature rs) = ?r @ ?s" .
  then show ?thesis using split by (rule trans)
qed

text \<open>The witness: \<open>r\<close> starts with a zero byte followed by \<open>0x89\<close>, \<open>s\<close> starts with \<open>0x80\<close>.\<close>

theorem stripSignature_fillSignature_witness:
  "length ([0, 0x89] @ replicate 30 0xab @ [0x80] @ replicate 31 (1::byte)) = 64
   \<and> stripSignature (fillSignature ([0, 0x89] @ replicate 30 0xab @ [0x80] @ replicate 31 1))
       = [0, 0x89] @ replicate 30 0xab @ [0x80] @ replicate 31 1"
proof -
  have h: "length ([0, 0x89] @ replicate 30 0xab @ [0x80] @ replicate 31 (1::byte)) = 64"
    by simp
  show ?thesis
    using h stripSignature_fillSignature[OF h] by (simp only: simp_thms)
qed

text \<open>
  C4 as the specification states it: decoding a DER buffer whose length bytes do not fit
  the buffer fails with \<open>InvalidSignatureEncoding\<close>. The code has no such check. Here
  the first length byte announces 32 bytes of \<open>r\<close> where the buffer holds one, and the
  second length byte is missing: \<open>stripSignature\<close> returns 64 bytes all the same.
\<close>

theorem stripSignature_malformed_counterexample:
  "stripSignature [0x30, 0x44, 0x02, 0x20, 0x01] = replicate 31 0 @ [0x01] @ replicate 32 0"
  by (simp add: stripSignature_def at_def num_def js_add_def slice_Some slice_NaN_end
      fixSizeTo32_def)

text \<open>
  C4 as the code has it: \<open>stripSignature\<close> has no error path. For every buffer, also one
  whose length bytes are missing or do not fit its size, it returns a result of 64 bytes:
  the slices are clamped to the buffer and each component is cut or zero-padded to 32
  bytes.
\<close>

theorem stripSignature_total:
  "length (stripSignature signature) = 64"
  by (simp add: stripSignature_def Let_def length_fixSizeTo32)

text \<open>
  C10. The DER encoding of a 64-byte signature fits the one-byte length form: each
  integer component has at most 33 bytes, the length byte of the sequence is
  \<open>4 + len r' + len s'\<close>, at most 70, and the whole encoding has at most 72 bytes.
\<close>

theorem fillSignature_short_form:
  assumes "length rs = 64"
  shows "(let vr = prependZeroIfNeeded (slice rs (Some 0) (Some 32));
              vs = prependZeroIfNeeded (slice rs (Some 32) (Some 64))
          in length vr \<le> 33 \<and> length vs \<le> 33
             \<and> unat (fillSignature rs ! 1) = 4 + length vr + length vs
             \<and> unat (fillSignature rs ! 1) \<le> 70
             \<and> unat (fillSignature rs ! 3) = length vr
             \<and> length (fillSignature rs) = 6 + length vr + length vs
             \<and> length (fillSignature rs) \<le> 72)"
proof -
  let ?vr = "prependZeroIfNeeded (slice rs (Some 0) (Some 32))"
  let ?vs = "prependZeroIfNeeded (slice rs (Some 32) (Some 64))"
  have r: "length ?vr \<le> 33" and s: "length ?vs \<le> 33"
    using length_component[of rs 0] length_component[of rs 32] by simp_all
  have "fillSignature rs ! 1 = of_nat (4 + length ?vr + length ?vs)"
    by (simp add: fillSignature_def Let_def)
  moreover have "4 + length ?vr + length ?vs < 256"
    using r s by simp
  ultimately have b1: "unat (fillSignature rs ! 1) = 4 + length ?vr + length ?vs"
    by (simp only: unat_of_nat_byte)
  have b2: "unat (fillSignature rs ! 3) = length ?vr"
    using r by (simp add: fillSignature_def Let_def unat_of_nat_byte)
  have len: "length (fillSignature rs) = 6 + length ?vr + length ?vs"
    by (simp add: fillSignature_def Let_def)
  show ?thesis
    unfolding Let_def using r s b1 b2 len by simp
qed

theorem fillSignature_short_form_witness:
  "length (replicate 64 (0xff::byte)) = 64
   \<and> unat (fillSignature (replicate 64 0xff) ! 1) \<le> 70
   \<and> length (fillSignature (replicate 64 0xff)) \<le> 72"
proof -
  have h: "length (replicate 64 (0xff::byte)) = 64" by simp
  from fillSignature_short_form[OF h]
  have "unat (fillSignature (replicate 64 0xff) ! 1) \<le> 70
        \<and> length (fillSignature (replicate 64 0xff)) \<le> 72"
    unfolding Let_def by blast
  with h show ?thesis by blast
qed

section \<open>The byte normaliser\<close>

text \<open>
  C5 as the specification states it: \<open>removeLeftZeros\<close> stops when a single byte remains,
  so an all-zero input gives one zero byte. The loop goes on while
  \<open>i < bytes.length\<close>, so it drops the last zero byte too.
\<close>

theorem removeLeftZeros_counterexample:
  "removeLeftZeros [0, 0, 0] = []"
  by (simp add: removeLeftZeros_eq)

text \<open>
  C5 as the code has it: \<open>removeLeftZeros\<close> removes every leading zero byte and nothing
  else: the result is the input from its first nonzero byte on, and the empty sequence
  for an all-zero input of any length.
\<close>

theorem removeLeftZeros_drops_all_zeros:
  "removeLeftZeros bytes = dropWhile (\<lambda>b. b = 0) bytes
   \<and> removeLeftZeros (replicate n 0) = []"
  by (simp add: removeLeftZeros_eq)

text \<open>
  C7. \<open>fixSizeTo32\<close> has no error case and always returns 32 bytes: the input itself
  when it has 32 bytes, its last 32 bytes when it is longer, and the input behind
  \<open>32 - len\<close> zero bytes when it is shorter.
\<close>

theorem fixSizeTo32_width:
  "length (fixSizeTo32 b) = 32
   \<and> (length b = 32 \<longrightarrow> fixSizeTo32 b = b)
   \<and> (length b > 32 \<longrightarrow> fixSizeTo32 b = drop (length b - 32) b)
   \<and> (length b < 32 \<longrightarrow> fixSizeTo32 b = replicate (32 - length b) 0 @ b)"
  by (simp add: length_fixSizeTo32 fixSizeTo32_exact fixSizeTo32_long fixSizeTo32_short)

theorem fixSizeTo32_width_witness:
  "fixSizeTo32 (replicate 32 0x11) = replicate 32 0x11
   \<and> fixSizeTo32 (0x00 # replicate 32 0x80) = replicate 32 0x80
   \<and> fixSizeTo32 [0x01, 0x02] = replicate 30 0 @ [0x01, 0x02]"
  using fixSizeTo32_width[of "replicate 32 0x11"]
    fixSizeTo32_width[of "0x00 # replicate 32 0x80"]
    fixSizeTo32_width[of "[0x01, 0x02]"]
  by simp

section \<open>Message padding: the properties\<close>

text \<open>
  C8. \<open>fill64Blocks\<close> is idempotent and its output length is a multiple of 64; a message
  whose length is a multiple of 64 is returned unchanged, and any other message is
  followed by zero bytes up to the next multiple of 64.
\<close>

theorem fill64Blocks_idempotent:
  "fill64Blocks (fill64Blocks m) = fill64Blocks m
   \<and> length (fill64Blocks m) mod 64 = 0
   \<and> (length m mod 64 = 0 \<longrightarrow> fill64Blocks m = m)
   \<and> (length m mod 64 \<noteq> 0 \<longrightarrow>
        fill64Blocks m = m @ replicate (64 * (length m div 64 + 1) - length m) 0
        \<and> length (fill64Blocks m) = 64 * (length m div 64 + 1))"
proof -
  have idem: "fill64Blocks (fill64Blocks m) = fill64Blocks m"
    by (rule fill64Blocks_aligned) (rule fill64Blocks_multiple)
  have count: "64 * (length m div 64 + 1) - length m = 64 - length m mod 64"
    using pad_to_next_multiple[of "length m"] by simp
  have pad: "fill64Blocks m = m @ replicate (64 * (length m div 64 + 1) - length m) 0"
    if "length m mod 64 \<noteq> 0"
    using fill64Blocks_unaligned[OF that] by (simp only: count)
  show ?thesis
    using idem pad by (simp add: fill64Blocks_multiple fill64Blocks_aligned length_fill64Blocks)
qed

theorem fill64Blocks_idempotent_witness:
  "fill64Blocks (replicate 128 0x07) = replicate 128 0x07
   \<and> fill64Blocks [0x01, 0x02, 0x03] = [0x01, 0x02, 0x03] @ replicate 61 0
   \<and> length (fill64Blocks [0x01, 0x02, 0x03]) = 64"
  using fill64Blocks_idempotent[of "replicate 128 0x07"]
    fill64Blocks_idempotent[of "[0x01, 0x02, 0x03]"]
  by simp

section \<open>Properties of the keystream cipher\<close>

declare ecbUpdate.simps [simp del]

lemma ecbUpdate_short: "length data < 16 \<Longrightarrow> ecbUpdate enc data = []"
  by (subst ecbUpdate.simps) simp

lemma length_ecbUpdate:
  assumes enc: "\<And>block. length block = 16 \<Longrightarrow> length (enc block) = 16"
  shows "length (ecbUpdate enc data) = 16 * (length data div 16)"
proof (induction data rule: length_induct)
  case (1 data)
  show ?case
  proof (cases "length data < 16")
    case True
    then show ?thesis by (simp add: ecbUpdate_short)
  next
    case False
    then have "length (enc (take 16 data)) = 16"
      by (simp add: enc)
    moreover have "length (ecbUpdate enc (drop 16 data)) = 16 * (length (drop 16 data) div 16)"
      using False "1.IH" by simp
    moreover have "length data div 16 = Suc ((length data - 16) div 16)"
      using False by (simp add: le_div_geq)
    ultimately show ?thesis
      using False by (subst ecbUpdate.simps) simp
  qed
qed

text \<open>The tiling loop returns as soon as the cipher block is not empty.\<close>

lemma encryptDecrypt_loop_returns:
  assumes "cipher \<noteq> []"
  shows "\<exists>tiled. encryptDecrypt_loop acc cipher n = Some tiled \<and> n \<le> length tiled"
proof (induction "n - length acc" arbitrary: acc rule: less_induct)
  case less
  show ?case
  proof (cases "length acc < n")
    case True
    then have "n - length (acc @ cipher) < n - length acc"
      using assms by (cases cipher) simp_all
    then have "\<exists>tiled. encryptDecrypt_loop (acc @ cipher) cipher n = Some tiled \<and> n \<le> length tiled"
      by (rule less)
    then show ?thesis
      using True by (subst encryptDecrypt_loop.simps) simp
  next
    case False
    then show ?thesis
      by (subst encryptDecrypt_loop.simps) simp
  qed
qed




subsection \<open>The byte-wise exclusive or\<close>

lemma length_xor_buf: "length (xor_buf a b) = length a"
  by (simp add: xor_buf_def)

lemma nth_xor_buf:
  "i < length a \<Longrightarrow> i < length b \<Longrightarrow> xor_buf a b ! i = a ! i XOR b ! i"
  by (simp add: xor_buf_def at_def js_xor_def)

lemma xor_buf_involution:
  assumes "length ks = length m"
  shows "xor_buf ks (xor_buf ks m) = m"
proof (rule nth_equalityI)
  show "length (xor_buf ks (xor_buf ks m)) = length m"
    using assms by (simp add: length_xor_buf)
next
  fix i
  assume "i < length (xor_buf ks (xor_buf ks m))"
  then have i: "i < length ks" "i < length m"
    using assms by (simp_all add: length_xor_buf)
  then have "xor_buf ks (xor_buf ks m) ! i = ks ! i XOR (ks ! i XOR m ! i)"
    by (simp add: nth_xor_buf length_xor_buf)
  also have "\<dots> = m ! i"
    by (simp add: xor.assoc[symmetric])
  finally show "xor_buf ks (xor_buf ks m) ! i = m ! i" .
qed

subsection \<open>The initialisation vector and the cipher block\<close>

lemma length_iv: "length (slice nonce (Some 0) (Some 7) @ nonce) = min 7 (length nonce) + length nonce"
  by (simp add: slice_Some min_def)

lemma sessionKey_Inr:
  assumes "ecdhSecret P privateKey (0x04 # publicKey) = Some secret"
  shows "sessionKey P privateKey publicKey nonce = Inr (hmacSha256 P secret (fill64Blocks nonce))"
  using assms by (simp add: sessionKey_def computeSecret_def hmac_def)

text \<open>
  When the library calls succeed, \<open>encryptDecrypt\<close> is the tiling loop on the cipher
  block followed by the exclusive or with the message.
\<close>

lemma encryptDecrypt_unfold:
  fixes P :: crypto and nonce secret :: buffer
  assumes ok: "crypto_ok P"
    and secret: "ecdhSecret P privateKey (0x04 # publicKey) = Some secret"
  defines "key \<equiv> take 16 (hmacSha256 P secret (fill64Blocks nonce))"
  defines "cipher \<equiv> ecbUpdate (aes128Block P key) (slice nonce (Some 0) (Some 7) @ nonce)"
  shows "encryptDecrypt P message privateKey publicKey nonce =
           (case encryptDecrypt_loop cipher cipher (length message) of
              None \<Rightarrow> None
            | Some tiled \<Rightarrow> Some (Inr (xor_buf (take (length message) tiled) message)))"
    and "length cipher = 16 * ((min 7 (length nonce) + length nonce) div 16)"
proof -
  have klen: "length key = 16"
    using ok by (simp add: key_def crypto_ok_def)
  then have upd: "cipherUpdate P key (slice nonce (Some 0) (Some 7) @ nonce) = Inr cipher"
    by (simp add: cipherUpdate_def cipher_def)
  have k: "slice (hmacSha256 P secret (fill64Blocks nonce)) (Some 0) (Some 16) = key"
    by (simp add: slice_Some key_def)
  show "encryptDecrypt P message privateKey publicKey nonce =
           (case encryptDecrypt_loop cipher cipher (length message) of
              None \<Rightarrow> None
            | Some tiled \<Rightarrow> Some (Inr (xor_buf (take (length message) tiled) message)))"
    unfolding encryptDecrypt_def Let_def sessionKey_Inr[OF secret]
    by (simp only: k upd sum.case) (simp only: slice_Some drop_0)
  have "length (aes128Block P key block) = 16" if "length block = 16" for block
    using ok klen that by (simp add: crypto_ok_def)
  then have "length cipher = 16 * (length (slice nonce (Some 0) (Some 7) @ nonce) div 16)"
    unfolding cipher_def by (rule length_ecbUpdate)
  then show "length cipher = 16 * ((min 7 (length nonce) + length nonce) div 16)"
    by (simp only: length_iv)
qed

text \<open>With a nonce of at least 9 bytes the keystream depends on the length of the
  message only.\<close>

lemma encryptDecrypt_keystream:
  assumes ok: "crypto_ok P"
    and secret: "ecdhSecret P privateKey (0x04 # publicKey) = Some secret"
    and nonce: "9 \<le> length nonce"
  shows "\<exists>ks. length ks = n \<and>
           (\<forall>message. length message = n \<longrightarrow>
              encryptDecrypt P message privateKey publicKey nonce = Some (Inr (xor_buf ks message)))"
proof -
  define key where "key = take 16 (hmacSha256 P secret (fill64Blocks nonce))"
  define cipher where
    "cipher = ecbUpdate (aes128Block P key) (slice nonce (Some 0) (Some 7) @ nonce)"
  have "16 \<le> min 7 (length nonce) + length nonce"
    using nonce by simp
  then have "1 \<le> (min 7 (length nonce) + length nonce) div 16"
    by (simp add: Suc_le_eq div_greater_zero_iff)
  moreover have "length cipher = 16 * ((min 7 (length nonce) + length nonce) div 16)"
    unfolding cipher_def key_def by (rule encryptDecrypt_unfold(2)[OF ok secret])
  ultimately have "cipher \<noteq> []" by auto
  then obtain tiled where t: "encryptDecrypt_loop cipher cipher n = Some tiled" "n \<le> length tiled"
    using encryptDecrypt_loop_returns by blast
  have "encryptDecrypt P message privateKey publicKey nonce
          = Some (Inr (xor_buf (take n tiled) message))" if "length message = n" for message
    using encryptDecrypt_unfold(1)[OF ok secret, of message nonce] t(1) that
    by (simp add: cipher_def key_def)
  moreover have "length (take n tiled) = n"
    using t(2) by simp
  ultimately show ?thesis by blast
qed

lemma computeSecret_Inr:
  "computeSecret P privateKey publicKey = Inr secret
   \<longleftrightarrow> ecdhSecret P privateKey (0x04 # publicKey) = Some secret"
  by (simp add: computeSecret_def split: option.splits)

lemma pad64_spec_eq: "pad64_spec message = fill64Blocks message"
proof -
  have "64 * (length message div 64 + 1) - length message = 64 - length message mod 64"
    using pad_to_next_multiple[of "length message"] by simp
  then show ?thesis
    by (simp add: pad64_spec_def fill64Blocks_def)
qed

subsection \<open>The stand-in satisfies what the code relies on\<close>

lemma toy_crypto_ok: "crypto_ok toy_crypto"
  by (simp add: crypto_ok_def toy_crypto_def toy_hmac_def toy_aes_def)

lemma toy_secret:
  "computeSecret toy_crypto (replicate 32 0x11) (replicate 64 0x22) = Inr (replicate 32 0x33)"
  by (simp add: computeSecret_def toy_crypto_def toy_ecdh_def zip_replicate)

section \<open>The session key\<close>

text \<open>
  C6. \<open>sessionKey\<close> is HMAC-SHA256, keyed with the ECDH shared secret of the two keys,
  of the nonce padded with zero bytes to a multiple of 64: the code and the
  specification's wording define the same function. Its value depends on the keys and
  the nonce only, so two calls with the same keys and nonce give the same key, which has
  32 bytes.
\<close>

theorem sessionKey_derivation:
  "sessionKey P privateKey publicKey nonce = deriveSessionKey_spec P privateKey publicKey nonce
   \<and> (computeSecret P privateKey publicKey = Inr secret \<longrightarrow>
        sessionKey P privateKey publicKey nonce = Inr (hmacSha256 P secret (pad64_spec nonce)))
   \<and> (privateKey' = privateKey \<and> publicKey' = publicKey \<and> nonce' = nonce \<longrightarrow>
        sessionKey P privateKey' publicKey' nonce' = sessionKey P privateKey publicKey nonce)
   \<and> (crypto_ok P \<and> sessionKey P privateKey publicKey nonce = Inr k \<longrightarrow> length k = 32)"
proof -
  have spec: "sessionKey P privateKey publicKey nonce
              = deriveSessionKey_spec P privateKey publicKey nonce"
    by (simp add: sessionKey_def computeSecret_def hmac_def deriveSessionKey_spec_def
        pad64_spec_eq split: option.splits)
  have val: "sessionKey P privateKey publicKey nonce = Inr (hmacSha256 P secret (pad64_spec nonce))"
    if "computeSecret P privateKey publicKey = Inr secret"
    using that by (simp add: sessionKey_def hmac_def pad64_spec_eq)
  have len: "length k = 32"
    if "crypto_ok P" "sessionKey P privateKey publicKey nonce = Inr k"
    using that by (auto simp: sessionKey_def hmac_def crypto_ok_def split: sum.splits)
  show ?thesis
    using spec val len by blast
qed

theorem sessionKey_derivation_witness:
  "crypto_ok toy_crypto
   \<and> computeSecret toy_crypto (replicate 32 0x11) (replicate 64 0x22) = Inr (replicate 32 0x33)
   \<and> sessionKey toy_crypto (replicate 32 0x11) (replicate 64 0x22) [1, 2, 3, 4, 5, 6, 7, 8, 9]
       = Inr (toy_hmac (replicate 32 0x33) (pad64_spec [1, 2, 3, 4, 5, 6, 7, 8, 9]))
   \<and> length (toy_hmac (replicate 32 0x33) (pad64_spec [1, 2, 3, 4, 5, 6, 7, 8, 9])) = 32"
proof -
  let ?k = "toy_hmac (replicate 32 0x33) (pad64_spec [1, 2, 3, 4, 5, 6, 7, 8, 9])"
  note inst = sessionKey_derivation[of toy_crypto "replicate 32 0x11" "replicate 64 0x22"
      "[1, 2, 3, 4, 5, 6, 7, 8, 9]" "replicate 32 0x33" "replicate 32 0x11" "replicate 64 0x22"
      "[1, 2, 3, 4, 5, 6, 7, 8, 9]" ?k]
  have h: "hmacSha256 toy_crypto = toy_hmac"
    by (simp add: toy_crypto_def)
  from inst toy_secret
  have "sessionKey toy_crypto (replicate 32 0x11) (replicate 64 0x22) [1, 2, 3, 4, 5, 6, 7, 8, 9]
        = Inr (hmacSha256 toy_crypto (replicate 32 0x33) (pad64_spec [1, 2, 3, 4, 5, 6, 7, 8, 9]))"
    by blast
  then have val: "sessionKey toy_crypto (replicate 32 0x11) (replicate 64 0x22)
               [1, 2, 3, 4, 5, 6, 7, 8, 9] = Inr ?k"
    by (simp only: h)
  then have "length ?k = 32"
    using inst toy_crypto_ok by blast
  then show ?thesis
    using val toy_crypto_ok toy_secret by blast
qed

section \<open>The keystream cipher\<close>

text \<open>
  C9. For a key pair that the library accepts and a nonce of at least 9 bytes,
  \<open>encryptDecrypt\<close> returns, and its output has the length of the message: it is the
  exclusive or of the message with a keystream cut to exactly that length.
\<close>

theorem encryptDecrypt_length:
  assumes "crypto_ok P"
    and "computeSecret P privateKey publicKey = Inr secret"
    and "9 \<le> length nonce"
  shows "\<exists>ks. length ks = length message
           \<and> encryptDecrypt P message privateKey publicKey nonce = Some (Inr (xor_buf ks message))
           \<and> length (xor_buf ks message) = length message"
proof -
  have "ecdhSecret P privateKey (0x04 # publicKey) = Some secret"
    using assms(2) by (simp only: computeSecret_Inr)
  from encryptDecrypt_keystream[OF assms(1) this assms(3), of "length message"]
  obtain ks where "length ks = length message"
    and "encryptDecrypt P message privateKey publicKey nonce = Some (Inr (xor_buf ks message))"
    by blast
  then show ?thesis
    by (auto simp: length_xor_buf)
qed

theorem encryptDecrypt_length_witness:
  "crypto_ok toy_crypto
   \<and> computeSecret toy_crypto (replicate 32 0x11) (replicate 64 0x22) = Inr (replicate 32 0x33)
   \<and> 9 \<le> length [1, 2, 3, 4, 5, 6, 7, 8, 9 :: byte]
   \<and> (\<exists>ks. length ks = length (replicate 20 (0x41 :: byte))
         \<and> encryptDecrypt toy_crypto (replicate 20 0x41) (replicate 32 0x11) (replicate 64 0x22)
              [1, 2, 3, 4, 5, 6, 7, 8, 9] = Some (Inr (xor_buf ks (replicate 20 0x41)))
         \<and> length (xor_buf ks (replicate 20 0x41)) = length (replicate 20 (0x41 :: byte)))"
proof -
  have n: "9 \<le> length [1, 2, 3, 4, 5, 6, 7, 8, 9 :: byte]" by simp
  show ?thesis
    using toy_crypto_ok toy_secret n
      encryptDecrypt_length[OF toy_crypto_ok toy_secret n, of "replicate 20 0x41"]
    by blast
qed

text \<open>
  C2. For a key pair that the library accepts and a nonce of at least 9 bytes, applying
  \<open>encryptDecrypt\<close> twice with the same keys and nonce returns the message.
\<close>

theorem encryptDecrypt_twice:
  assumes "crypto_ok P"
    and "computeSecret P privateKey publicKey = Inr secret"
    and "9 \<le> length nonce"
  shows "\<exists>c. encryptDecrypt P m privateKey publicKey nonce = Some (Inr c)
           \<and> encryptDecrypt P c privateKey publicKey nonce = Some (Inr m)"
proof -
  have "ecdhSecret P privateKey (0x04 # publicKey) = Some secret"
    using assms(2) by (simp only: computeSecret_Inr)
  from encryptDecrypt_keystream[OF assms(1) this assms(3), of "length m"]
  obtain ks where ks: "length ks = length m"
    and enc: "\<And>message. length message = length m \<Longrightarrow>
           encryptDecrypt P message privateKey publicKey nonce = Some (Inr (xor_buf ks message))"
    by blast
  have first: "encryptDecrypt P m privateKey publicKey nonce = Some (Inr (xor_buf ks m))"
    by (rule enc) simp
  have "length (xor_buf ks m) = length m"
    using ks by (simp add: length_xor_buf)
  then have "encryptDecrypt P (xor_buf ks m) privateKey publicKey nonce
             = Some (Inr (xor_buf ks (xor_buf ks m)))"
    by (rule enc)
  then have "encryptDecrypt P (xor_buf ks m) privateKey publicKey nonce = Some (Inr m)"
    using ks by (simp only: xor_buf_involution)
  with first show ?thesis by blast
qed

theorem encryptDecrypt_twice_witness:
  "crypto_ok toy_crypto
   \<and> computeSecret toy_crypto (replicate 32 0x11) (replicate 64 0x22) = Inr (replicate 32 0x33)
   \<and> 9 \<le> length [1, 2, 3, 4, 5, 6, 7, 8, 9 :: byte]
   \<and> (\<exists>c. encryptDecrypt toy_crypto [0x68, 0x69, 0x21] (replicate 32 0x11) (replicate 64 0x22)
              [1, 2, 3, 4, 5, 6, 7, 8, 9] = Some (Inr c)
         \<and> encryptDecrypt toy_crypto c (replicate 32 0x11) (replicate 64 0x22)
              [1, 2, 3, 4, 5, 6, 7, 8, 9] = Some (Inr [0x68, 0x69, 0x21]))"
proof -
  have n: "9 \<le> length [1, 2, 3, 4, 5, 6, 7, 8, 9 :: byte]" by simp
  show ?thesis
    using toy_crypto_ok toy_secret n
      encryptDecrypt_twice[OF toy_crypto_ok toy_secret n, of "[0x68, 0x69, 0x21]"]
    by blast
qed




subsection \<open>The library's values on the keys 1 and G\<close>







end
